theory Spec2Isabelle
  imports
    Complex_Main
    "HOL-Library.Multiset"
    "HOL-Library.Char_ord"
    "HOL-Library.List_Lexorder"
begin

section \<open>Configuration constants of App.jsx\<close>

definition TOTAL_ROWS :: nat where
  "TOTAL_ROWS = 10000"

definition ROW_HEIGHT :: nat where
  "ROW_HEIGHT = 40"

definition VIEWPORT_HEIGHT :: nat where
  "VIEWPORT_HEIGHT = 600"

definition BATCH_SIZE :: nat where
  "BATCH_SIZE = 200"

definition PREFETCH_THRESHOLD :: nat where
  "PREFETCH_THRESHOLD = 20"

section \<open>Rows, the sparse array and the component state\<close>

text \<open>
  A row is the object \<^verbatim>\<open>{ id, name, email }\<close> built in the timeout callback of
  \<^verbatim>\<open>fetchBatch\<close>. Identifiers are the positive integers \<^verbatim>\<open>startIndex + i + 1\<close>.
  Strings are lists of code units; the model keeps to code units below 256.
\<close>

record row =
  row_id :: nat
  name :: string
  email :: string

datatype sort_key = KId | KName | KEmail

datatype direction = Asc | Desc

record sort_config =
  key :: sort_key
  direction :: direction

text \<open>
  The React state of \<^verbatim>\<open>App\<close>. \<^verbatim>\<open>data\<close> is a JavaScript array with holes: a slot
  is \<open>None\<close> when nothing was ever assigned at that index. \<open>pending\<close> is the queue of
  timers armed by \<^verbatim>\<open>setTimeout\<close> that have not fired yet (all have the same delay, so
  they fire in the order they were armed). \<open>issued\<close> is a history variable: every
  call of \<^verbatim>\<open>fetchBatch\<close> that passes its guard is appended to it; no code reads it.

  Each handler runs against the state committed by the previous one, that is, React
  renders between two events. \<open>scrollTop\<close> is the pixel offset reported by the
  scroll container, a non-negative number; a fractional offset addresses the same row as
  its integer part.
\<close>

record state =
  data :: "row option list"
  loading :: bool
  hasMore :: bool
  scrollTop :: nat
  filterText :: string
  sortConfig :: sort_config
  pending :: "(nat \<times> nat) list"
  issued :: "(nat \<times> nat) list"

text \<open>Reading \<^verbatim>\<open>data[i]\<close>: a hole and an index past the end both give \<^verbatim>\<open>undefined\<close>.\<close>

definition js_get :: "'a option list \<Rightarrow> nat \<Rightarrow> 'a option" where
  "js_get xs i = (if i < length xs then xs ! i else None)"

text \<open>Writing \<^verbatim>\<open>copy[i] = v\<close>: an index past the end extends the array with holes.\<close>

definition js_set :: "'a option list \<Rightarrow> nat \<Rightarrow> 'a \<Rightarrow> 'a option list" where
  "js_set xs i v =
     (if i < length xs then xs[i := Some v]
      else xs @ replicate (i - length xs) None @ [Some v])"

text \<open>\<^verbatim>\<open>arr.slice(b, e)\<close>, with the clamping of negative and oversized bounds.\<close>

definition js_slice :: "'a list \<Rightarrow> int \<Rightarrow> int \<Rightarrow> 'a list" where
  "js_slice xs b e =
     (let n = int (length xs);
          k = (if b < 0 then max (n + b) 0 else min b n);
          f = (if e < 0 then max (n + e) 0 else min e n)
      in take (nat (f - k)) (drop (nat k) xs))"

text \<open>\<^verbatim>\<open>data.filter(Boolean)\<close>: the loaded rows, in index order.\<close>

fun filter_Boolean :: "'a option list \<Rightarrow> 'a list" where
  "filter_Boolean [] = []"
| "filter_Boolean (None # xs) = filter_Boolean xs"
| "filter_Boolean (Some x # xs) = x # filter_Boolean xs"

definition loadedRows :: "state \<Rightarrow> row list" where
  "loadedRows s = filter_Boolean (data s)"

section \<open>Strings\<close>

definition is_space :: "char \<Rightarrow> bool" where
  "is_space c = ((of_char c :: nat) \<in> {9, 10, 11, 12, 13, 32, 160})"

text \<open>\<^verbatim>\<open>String.prototype.trim\<close>: white space is removed at both ends.\<close>

definition trim :: "string \<Rightarrow> string" where
  "trim s = rev (dropWhile is_space (rev (dropWhile is_space s)))"

definition lower_char :: "char \<Rightarrow> char" where
  "lower_char c =
     (let n = (of_char c :: nat)
      in if (65 \<le> n \<and> n \<le> 90) \<or> (192 \<le> n \<and> n \<le> 222 \<and> n \<noteq> 215)
         then char_of (n + 32) else c)"

definition toLowerCase :: "string \<Rightarrow> string" where
  "toLowerCase s = map lower_char s"

fun starts_with :: "string \<Rightarrow> string \<Rightarrow> bool" where
  "starts_with s [] = True"
| "starts_with [] (q # qs) = False"
| "starts_with (c # cs) (q # qs) = (c = q \<and> starts_with cs qs)"

text \<open>\<^verbatim>\<open>s.includes(q)\<close>: \<open>q\<close> occurs in \<open>s\<close> as a contiguous block.\<close>

fun includes_str :: "string \<Rightarrow> string \<Rightarrow> bool" where
  "includes_str [] q = (q = [])"
| "includes_str (c # cs) q = (starts_with (c # cs) q \<or> includes_str cs q)"

definition digit_char :: "nat \<Rightarrow> char" where
  "digit_char d = char_of (48 + d)"

text \<open>The decimal rendering of a number inside a template literal.\<close>

fun num_to_string :: "nat \<Rightarrow> string" where
  "num_to_string n =
     (if n < 10 then [digit_char n]
      else num_to_string (n div 10) @ [digit_char (n mod 10)])"

declare num_to_string.simps [simp del]

section \<open>The window calculator\<close>

text \<open>\<^verbatim>\<open>Math.ceil(VIEWPORT_HEIGHT / ROW_HEIGHT) + 5\<close>.\<close>

definition visibleCount :: int where
  "visibleCount = - ((- int VIEWPORT_HEIGHT) div int ROW_HEIGHT) + 5"

definition startIndexOf :: "nat \<Rightarrow> int \<Rightarrow> int" where
  "startIndexOf st tot = min (int (st div ROW_HEIGHT)) (max 0 (tot - visibleCount))"

definition endIndexOf :: "nat \<Rightarrow> int \<Rightarrow> int" where
  "endIndexOf st tot = min tot (startIndexOf st tot + visibleCount)"

section \<open>The batch source and the fetch scheduler\<close>

text \<open>The row built for identifier \<open>n\<close>: \<^verbatim>\<open>{ id, name: `User ${id}`, email: `user${id}@example.com` }\<close>.\<close>

definition mk_row :: "nat \<Rightarrow> row" where
  "mk_row n =
     \<lparr>row_id = n, name = ''User '' @ num_to_string n,
      email = ''user'' @ num_to_string n @ ''@example.com''\<rparr>"

text \<open>\<^verbatim>\<open>Array.from({ length: count }, (_, i) => ...)\<close> with \<^verbatim>\<open>id = startIndex + i + 1\<close>.\<close>

definition newRows :: "nat \<Rightarrow> nat \<Rightarrow> row list" where
  "newRows startIndex cnt = map (\<lambda>i. mk_row (startIndex + i + 1)) [0..<cnt]"

text \<open>\<^verbatim>\<open>newRows.forEach((row, i) => { copy[startIndex + i] = row; })\<close>, from position \<open>i\<close> on.\<close>

fun forEach_put :: "nat \<Rightarrow> nat \<Rightarrow> 'a list \<Rightarrow> 'a option list \<Rightarrow> 'a option list" where
  "forEach_put startIndex i [] copy = copy"
| "forEach_put startIndex i (r # rs) copy =
     forEach_put startIndex (Suc i) rs (js_set copy (startIndex + i) r)"

text \<open>
  \<^verbatim>\<open>fetchBatch\<close> up to the call of \<^verbatim>\<open>setTimeout\<close>: nothing happens while
  \<open>loading\<close> is set; otherwise the flag is set and a timer is armed.
\<close>

definition fetchBatch :: "nat \<Rightarrow> nat \<Rightarrow> state \<Rightarrow> state" where
  "fetchBatch startIndex cnt s =
     (if loading s then s
      else s\<lparr>loading := True,
             pending := pending s @ [(startIndex, cnt)],
             issued := issued s @ [(startIndex, cnt)]\<rparr>)"

text \<open>The timeout callback of \<^verbatim>\<open>fetchBatch(startIndex, count)\<close>, run on the state of that moment.\<close>

definition fetchDone :: "nat \<Rightarrow> nat \<Rightarrow> state \<Rightarrow> state" where
  "fetchDone startIndex cnt s =
     (let s1 = s\<lparr>data := forEach_put startIndex 0 (newRows startIndex cnt) (data s)\<rparr>;
          s2 = s1\<lparr>loading := False\<rparr>
      in if startIndex + cnt \<ge> TOTAL_ROWS then s2\<lparr>hasMore := False\<rparr> else s2)"

text \<open>The oldest armed timer fires; with no timer armed nothing happens.\<close>

definition timerFire :: "state \<Rightarrow> state" where
  "timerFire s =
     (case pending s of
        [] \<Rightarrow> s
      | (startIndex, cnt) # rest \<Rightarrow> fetchDone startIndex cnt (s\<lparr>pending := rest\<rparr>))"

section \<open>Sorting\<close>

text \<open>
  The value of \<^verbatim>\<open>row[key]\<close>: a number for \<^verbatim>\<open>id\<close>, a string for the other columns.
\<close>

datatype val = Num nat | Str string

fun get_field :: "sort_key \<Rightarrow> row \<Rightarrow> val" where
  "get_field KId r = Num (row_id r)"
| "get_field KName r = Str (name r)"
| "get_field KEmail r = Str (email r)"

text \<open>
  \<^verbatim>\<open>a < b\<close> on two numbers or on two strings (code unit order). The two operands of
  a comparator always come from the same column, so the mixed cases are never reached.
\<close>

fun val_less :: "val \<Rightarrow> val \<Rightarrow> bool" where
  "val_less (Num a) (Num b) = (a < b)"
| "val_less (Str a) (Str b) = (a < b)"
| "val_less _ _ = False"

fun toString :: "val \<Rightarrow> string" where
  "toString (Num n) = num_to_string n"
| "toString (Str s) = s"

text \<open>
  \<^verbatim>\<open>Array.prototype.sort\<close> with a comparator: the sort is stable, and an element
  goes before the first element the comparator does not put it after. For a consistent
  comparator every engine returns this list; for an inconsistent one the order is left
  to the engine, and the insertion order below is one choice.
\<close>

fun insert_cmp :: "('a \<Rightarrow> 'a \<Rightarrow> int) \<Rightarrow> 'a \<Rightarrow> 'a list \<Rightarrow> 'a list" where
  "insert_cmp cmp x [] = [x]"
| "insert_cmp cmp x (y # ys) = (if cmp x y \<le> 0 then x # y # ys else y # insert_cmp cmp x ys)"

fun sort_cmp :: "('a \<Rightarrow> 'a \<Rightarrow> int) \<Rightarrow> 'a list \<Rightarrow> 'a list" where
  "sort_cmp cmp [] = []"
| "sort_cmp cmp (x # xs) = insert_cmp cmp x (sort_cmp cmp xs)"

text \<open>
  On an array with holes \<^verbatim>\<open>sort\<close> orders the present elements, puts them first and
  leaves the holes behind them; the length does not change and the comparator never
  sees a hole.
\<close>

definition js_sort :: "('a option \<Rightarrow> 'a option \<Rightarrow> int) \<Rightarrow> 'a option list \<Rightarrow> 'a option list" where
  "js_sort cmp xs =
     (let present = filter (\<lambda>x. x \<noteq> None) xs
      in sort_cmp cmp present @ replicate (length xs - length present) None)"

text \<open>The comparator of \<^verbatim>\<open>processedData\<close>.\<close>

definition processed_compare :: "sort_config \<Rightarrow> row \<Rightarrow> row \<Rightarrow> int" where
  "processed_compare cfg a b =
     (let aVal = get_field (key cfg) a; bVal = get_field (key cfg) b
      in if val_less aVal bVal then (if direction cfg = Asc then - 1 else 1)
         else if val_less bVal aVal then (if direction cfg = Asc then 1 else - 1)
         else 0)"

text \<open>
  The comparator of \<^verbatim>\<open>toggleSort\<close>, for the clicked column \<open>k\<close> and the direction
  \<open>d\<close> it reads. \<open>lc\<close> is \<^verbatim>\<open>String.prototype.localeCompare\<close>, which depends on the
  locale of the host and is a parameter here.
\<close>

definition toggle_compare ::
  "(string \<Rightarrow> string \<Rightarrow> int) \<Rightarrow> sort_key \<Rightarrow> direction \<Rightarrow> row option \<Rightarrow> row option \<Rightarrow> int" where
  "toggle_compare lc k d a b =
     (case (a, b) of
        (Some ra, Some rb) \<Rightarrow>
          (case (get_field k ra, get_field k rb) of
             (Num x, Num y) \<Rightarrow> (if d = Asc then int x - int y else int y - int x)
           | (aVal, bVal) \<Rightarrow>
               (if d = Asc then lc (toString aVal) (toString bVal)
                else lc (toString bVal) (toString aVal)))
      | _ \<Rightarrow> 0)"

text \<open>
  \<^verbatim>\<open>toggleSort(key)\<close>. The new direction is computed from the previous configuration;
  the comparator that re-sorts \<^verbatim>\<open>data\<close> reads \<^verbatim>\<open>sortConfig.direction\<close> of the render
  the handler belongs to, that is, the direction before the click.
\<close>

definition toggleSort :: "(string \<Rightarrow> string \<Rightarrow> int) \<Rightarrow> sort_key \<Rightarrow> state \<Rightarrow> state" where
  "toggleSort lc k s =
     s\<lparr>sortConfig :=
         \<lparr>key = k,
          direction =
            (if key (sortConfig s) = k \<and> direction (sortConfig s) = Asc then Desc else Asc)\<rparr>,
       data := js_sort (toggle_compare lc k (direction (sortConfig s))) (data s)\<rparr>"

section \<open>The view mode reconciler\<close>

definition isFiltering :: "state \<Rightarrow> bool" where
  "isFiltering s = (length (trim (filterText s)) > 0)"

text \<open>
  \<^verbatim>\<open>processedData\<close>: the loaded rows, filtered when the trimmed filter is not empty,
  then sorted. \<^verbatim>\<open>sortConfig.key\<close> is always one of the three column names, so the
  test \<^verbatim>\<open>if (sortConfig.key)\<close> always succeeds.
\<close>

definition processedData :: "state \<Rightarrow> row list" where
  "processedData s =
     (let arr = loadedRows s;
          arr = (if trim (filterText s) \<noteq> [] then
                   (let q = toLowerCase (filterText s)
                    in filter (\<lambda>r. includes_str (toLowerCase (name r)) q
                                  \<or> includes_str (toLowerCase (email r)) q) arr)
                 else arr)
      in sort_cmp (processed_compare (sortConfig s)) arr)"

definition totalRows :: "state \<Rightarrow> int" where
  "totalRows s = (if isFiltering s then int (length (processedData s)) else int TOTAL_ROWS)"

definition startIndex :: "state \<Rightarrow> int" where
  "startIndex s = startIndexOf (scrollTop s) (totalRows s)"

definition endIndex :: "state \<Rightarrow> int" where
  "endIndex s = endIndexOf (scrollTop s) (totalRows s)"

text \<open>The entries handed to the renderer: a row, a skeleton for a hole, or the "No results" line.\<close>

datatype entry = NoResults | RowEntry row | Skeleton nat

definition visibleRows :: "state \<Rightarrow> entry list" where
  "visibleRows s =
     (if isFiltering s then
        (let slice = js_slice (processedData s) (startIndex s) (endIndex s)
         in if length slice = 0 then [NoResults] else map RowEntry slice)
      else
        map (\<lambda>i. case js_get (data s) i of Some r \<Rightarrow> RowEntry r | None \<Rightarrow> Skeleton i)
          [nat (startIndex s)..<nat (endIndex s)])"

definition spacerTop :: "state \<Rightarrow> int" where
  "spacerTop s = startIndex s * int ROW_HEIGHT"

definition spacerBottom :: "state \<Rightarrow> int" where
  "spacerBottom s = (totalRows s - endIndex s) * int ROW_HEIGHT"

section \<open>Event handlers\<close>

text \<open>
  \<^verbatim>\<open>handleScroll\<close> for a scroll event at pixel offset \<open>st\<close>. The guard
  \<^verbatim>\<open>if (loading) return\<close> inside \<^verbatim>\<open>fetchBatch\<close> reads the same \<open>loading\<close> as the
  handler.
\<close>

definition nextBatchStartOf :: "nat \<Rightarrow> nat" where
  "nextBatchStartOf currentRow = currentRow div BATCH_SIZE * BATCH_SIZE + BATCH_SIZE"

definition handleScroll :: "nat \<Rightarrow> state \<Rightarrow> state" where
  "handleScroll st s =
     (let s1 = s\<lparr>scrollTop := st\<rparr>
      in if isFiltering s then s1
         else
           (let currentRow = st div ROW_HEIGHT
            in if hasMore s \<and> \<not> loading s then
                 (let nextBatchStart = nextBatchStartOf currentRow
                  in if nextBatchStart < TOTAL_ROWS
                        \<and> int nextBatchStart - int currentRow \<le> int PREFETCH_THRESHOLD
                        \<and> js_get (data s) nextBatchStart = None
                     then fetchBatch nextBatchStart BATCH_SIZE s1
                     else s1)
               else s1))"

text \<open>The \<^verbatim>\<open>onChange\<close> handler of the filter box.\<close>

definition onFilterChange :: "string \<Rightarrow> state \<Rightarrow> state" where
  "onFilterChange v s = s\<lparr>filterText := v, scrollTop := 0\<rparr>"

text \<open>The state before the first render, and the state after the start-up effect.\<close>

definition initial :: state where
  "initial =
     \<lparr>data = [], loading = False, hasMore = True, scrollTop = 0, filterText = [],
      sortConfig = \<lparr>key = KId, direction = Asc\<rparr>, pending = [], issued = []\<rparr>"

definition mounted :: state where
  "mounted = fetchBatch 0 TOTAL_ROWS initial"

datatype event = Scroll nat | FilterChange string | HeaderClick sort_key | Timeout

fun step :: "(string \<Rightarrow> string \<Rightarrow> int) \<Rightarrow> event \<Rightarrow> state \<Rightarrow> state" where
  "step lc (Scroll st) s = handleScroll st s"
| "step lc (FilterChange v) s = onFilterChange v s"
| "step lc (HeaderClick k) s = toggleSort lc k s"
| "step lc Timeout s = timerFire s"

text \<open>An execution: the events are handled one after the other, oldest first.\<close>

fun run :: "(string \<Rightarrow> string \<Rightarrow> int) \<Rightarrow> event list \<Rightarrow> state \<Rightarrow> state" where
  "run lc [] s = s"
| "run lc (e # es) s = run lc es (step lc e s)"

text \<open>One collation for running examples: the order of the code units.\<close>

definition codeunit_compare :: "string \<Rightarrow> string \<Rightarrow> int" where
  "codeunit_compare a b = (if a < b then - 1 else if b < a then 1 else 0)"

text \<open>
  The state of the prefetch example: rows \<open>[0, 200)\<close> are loaded, nothing is in
  flight and more rows are expected.
\<close>

definition first_batch_loaded :: state where
  "first_batch_loaded = initial\<lparr>data := map Some (newRows 0 BATCH_SIZE)\<rparr>"

text \<open>
  The single-flight invariant: the flag is set exactly while a timer is armed, and at
  most one timer is armed.
\<close>

definition single_flight :: "state \<Rightarrow> bool" where
  "single_flight s = ((loading s = (pending s \<noteq> [])) \<and> length (pending s) \<le> 1)"

text \<open>
  What holds all along an execution that starts with the start-up effect: one fetch was
  issued, for the whole dataset; until it completes the store is empty, afterwards it is
  full and no more rows are expected.
\<close>

definition whole_dataset_fetch :: "state \<Rightarrow> bool" where
  "whole_dataset_fetch s =
     (issued s = [(0, TOTAL_ROWS)] \<and>
      (if loading s then pending s = [(0, TOTAL_ROWS)] \<and> data s = []
       else pending s = [] \<and> \<not> hasMore s \<and> length (data s) = TOTAL_ROWS
            \<and> None \<notin> set (data s)))"

text \<open>
  Ascending or descending order of two rows under a sort configuration: the first row
  may stand before the second.
\<close>

definition ordered_by :: "sort_config \<Rightarrow> row \<Rightarrow> row \<Rightarrow> bool" where
  "ordered_by cfg a b =
     (if direction cfg = Asc
      then \<not> val_less (get_field (key cfg) b) (get_field (key cfg) a)
      else \<not> val_less (get_field (key cfg) a) (get_field (key cfg) b))"

text \<open>
  The compact sequence in the words of the specification, for comparison with
  \<open>processedData\<close>: the loaded rows whose name or email contains, without regard to
  case, the trimmed filter text, sorted by the active configuration.
\<close>

definition spec_compactSequence :: "state \<Rightarrow> row list" where
  "spec_compactSequence s =
     sort_cmp (processed_compare (sortConfig s))
       (filter (\<lambda>r. includes_str (toLowerCase (name r)) (toLowerCase (trim (filterText s)))
                  \<or> includes_str (toLowerCase (email r)) (toLowerCase (trim (filterText s))))
          (loadedRows s))"

text \<open>Example states of the filter: a filter with a leading blank, and an upper-case filter.\<close>

definition padded_filter_state :: state where
  "padded_filter_state = initial\<lparr>data := [Some (mk_row 1)], filterText := '' user1''\<rparr>"

definition mixed_case_filter_state :: state where
  "mixed_case_filter_state =
     initial\<lparr>data := [Some (mk_row 10), None, Some (mk_row 2), Some (mk_row 1)],
             filterText := ''USER1''\<rparr>"

text \<open>Example states of sorting: a store with a hole, and a descending configuration.\<close>

definition small_sparse_state :: state where
  "small_sparse_state = initial\<lparr>data := [Some (mk_row 1), None, Some (mk_row 2)]\<rparr>"

definition descending_state :: state where
  "descending_state =
     initial\<lparr>data := [Some (mk_row 1), Some (mk_row 2)], filterText := ''user'',
             sortConfig := \<lparr>key = KId, direction = Desc\<rparr>\<rparr>"

section \<open>Theorems\<close>

subsection \<open>The sparse array\<close>

lemma js_get_js_set: "js_get (js_set xs i v) j = (if j = i then Some v else js_get xs j)"
  by (auto simp: js_get_def js_set_def nth_append nth_list_update)

lemma length_js_set: "length (js_set xs i v) = max (length xs) (Suc i)"
  by (auto simp: js_set_def)

lemma js_get_forEach_put:
  "js_get (forEach_put a i rs copy) j =
     (if a + i \<le> j \<and> j < a + i + length rs then Some (rs ! (j - (a + i))) else js_get copy j)"
proof (induction rs arbitrary: i copy)
  case Nil
  then show ?case by auto
next
  case (Cons r rs)
  have "j - (a + i) - 1 = j - (a + Suc i)" by simp
  then show ?case
    by (auto simp: Cons.IH js_get_js_set nth_Cons')
qed

lemma length_forEach_put:
  "length (forEach_put a i rs copy) =
     (if rs = [] then length copy else max (length copy) (a + i + length rs))"
  by (induction rs arbitrary: i copy) (auto simp: length_js_set)

lemma length_newRows: "length (newRows a c) = c"
  by (simp add: newRows_def)

lemma nth_newRows: "i < c \<Longrightarrow> newRows a c ! i = mk_row (a + i + 1)"
  by (simp add: newRows_def)

lemma js_get_fetchDone:
  "js_get (data (fetchDone a c s)) j =
     (if a \<le> j \<and> j < a + c then Some (mk_row (j + 1)) else js_get (data s) j)"
  by (auto simp: fetchDone_def Let_def js_get_forEach_put length_newRows nth_newRows)

lemma no_hole_iff: "None \<notin> set xs \<longleftrightarrow> (\<forall>j < length xs. js_get xs j \<noteq> None)"
  by (auto simp: js_get_def in_set_conv_nth)

subsection \<open>The comparator sort\<close>

lemma mset_insert_cmp: "mset (insert_cmp cmp x xs) = add_mset x (mset xs)"
  by (induction xs) auto

lemma mset_sort_cmp: "mset (sort_cmp cmp xs) = mset xs"
  by (induction xs) (auto simp: mset_insert_cmp)

lemma set_sort_cmp: "set (sort_cmp cmp xs) = set xs"
  using mset_sort_cmp [of cmp xs] by (metis set_mset_mset)

lemma length_sort_cmp: "length (sort_cmp cmp xs) = length xs"
  using mset_sort_cmp [of cmp xs] by (metis size_mset)

lemma length_js_sort: "length (js_sort cmp xs) = length xs"
proof -
  have "length (filter (\<lambda>x. x \<noteq> None) xs) \<le> length xs"
    by (rule length_filter_le)
  then show ?thesis
    by (simp add: js_sort_def Let_def length_sort_cmp)
qed

lemma js_sort_full: "None \<notin> set xs \<Longrightarrow> None \<notin> set (js_sort cmp xs)"
proof -
  assume full: "None \<notin> set xs"
  have "\<forall>x \<in> set xs. x \<noteq> None"
    using full by metis
  then have "filter (\<lambda>x. x \<noteq> None) xs = xs"
    by (rule filter_True)
  then show ?thesis
    using full by (simp add: js_sort_def Let_def set_sort_cmp)
qed

subsection \<open>The window\<close>


lemma visibleCount_val: "visibleCount = 20"
  by (simp add: visibleCount_def VIEWPORT_HEIGHT_def ROW_HEIGHT_def)

text \<open>
  Claim C6. For every non-negative scroll offset and every row total, zero included,
  the window calculator yields \<open>0 \<le> startIndex \<le> endIndex \<le> totalRows\<close>, where
  \<open>startIndex\<close> is the smaller of the row under the scroll offset and
  \<open>max 0 (totalRows - visibleCount)\<close>, and \<open>endIndex\<close> is the smaller of
  \<open>totalRows\<close> and \<open>startIndex + visibleCount\<close>. In particular the bounds hold for
  the window of every state of the component, in either mode.
\<close>

theorem window_bounds:
  "(0 \<le> tot \<longrightarrow>
      0 \<le> startIndexOf st tot
    \<and> startIndexOf st tot \<le> endIndexOf st tot
    \<and> endIndexOf st tot \<le> tot
    \<and> startIndexOf st tot
        = min (\<lfloor>real st / real ROW_HEIGHT\<rfloor>) (max 0 (tot - visibleCount))
    \<and> endIndexOf st tot = min tot (startIndexOf st tot + visibleCount))
   \<and> 0 \<le> startIndex s \<and> startIndex s \<le> endIndex s \<and> endIndex s \<le> totalRows s"
proof -
  have fl: "\<lfloor>real st / real ROW_HEIGHT\<rfloor> = int (st div ROW_HEIGHT)"
    by (simp add: floor_divide_of_nat_eq)
  have vc: "0 \<le> visibleCount"
    by (simp add: visibleCount_val)
  have calc: "0 \<le> n \<Longrightarrow>
      0 \<le> startIndexOf m n \<and> startIndexOf m n \<le> endIndexOf m n \<and> endIndexOf m n \<le> n"
    for m n
    using vc by (auto simp: startIndexOf_def endIndexOf_def)
  have nonneg: "0 \<le> totalRows s"
    by (simp add: totalRows_def)
  have formula: "startIndexOf st tot
        = min (\<lfloor>real st / real ROW_HEIGHT\<rfloor>) (max 0 (tot - visibleCount))
    \<and> endIndexOf st tot = min tot (startIndexOf st tot + visibleCount)"
    unfolding fl by (simp add: startIndexOf_def endIndexOf_def)
  from calc [of tot st] calc [OF nonneg, of "scrollTop s"] formula show ?thesis
    by (simp add: startIndex_def endIndex_def)
qed

theorem window_bounds_witness:
  "(0::int) \<le> 0 \<and> 0 \<le> startIndexOf 7400 0 \<and> startIndexOf 7400 0 \<le> endIndexOf 7400 0
     \<and> endIndexOf 7400 0 \<le> 0"
proof -
  have h: "(0::int) \<le> 0" by simp
  from window_bounds [of 0 7400] h show ?thesis by blast
qed

subsection \<open>Prefetch on scroll\<close>

lemma floor_row: "\<lfloor>real r / real BATCH_SIZE\<rfloor> = int (r div BATCH_SIZE)"
  by (simp add: floor_divide_of_nat_eq)

lemma first_batch_loaded_normal: "\<not> isFiltering first_batch_loaded"
  by (simp add: isFiltering_def first_batch_loaded_def initial_def trim_def)

text \<open>
  Claim C1. A scroll event in Normal mode, at current row \<open>r\<close>, issues the request
  \<open>(nextBatchStart, BATCH_SIZE)\<close> with
  \<open>nextBatchStart = floor (r / BATCH_SIZE) * BATCH_SIZE + BATCH_SIZE\<close> exactly when
  \<open>nextBatchStart < TOTAL_ROWS\<close>, \<open>nextBatchStart - r \<le> PREFETCH_THRESHOLD\<close>, the slot
  at \<open>nextBatchStart\<close> is a hole, \<open>hasMore\<close> is set and nothing is in flight; otherwise
  it issues nothing. With only \<open>[0, 200)\<close> loaded, scrolling to row 185 issues
  \<open>(200, 200)\<close> and scrolling to row 170 issues nothing.
\<close>

theorem prefetch_iff:
  "(\<not> isFiltering s \<longrightarrow>
     (let r = st div ROW_HEIGHT; nextBatchStart = nextBatchStartOf r
      in int nextBatchStart = \<lfloor>real r / real BATCH_SIZE\<rfloor> * int BATCH_SIZE + int BATCH_SIZE
       \<and> issued (handleScroll st s) =
           (if nextBatchStart < TOTAL_ROWS
               \<and> int nextBatchStart - int r \<le> int PREFETCH_THRESHOLD
               \<and> js_get (data s) nextBatchStart = None
               \<and> hasMore s \<and> \<not> loading s
            then issued s @ [(nextBatchStart, BATCH_SIZE)] else issued s)
       \<and> pending (handleScroll st s) =
           (if nextBatchStart < TOTAL_ROWS
               \<and> int nextBatchStart - int r \<le> int PREFETCH_THRESHOLD
               \<and> js_get (data s) nextBatchStart = None
               \<and> hasMore s \<and> \<not> loading s
            then pending s @ [(nextBatchStart, BATCH_SIZE)] else pending s)))
   \<and> issued (handleScroll (185 * ROW_HEIGHT) first_batch_loaded) = [(200, 200)]
   \<and> issued (handleScroll (170 * ROW_HEIGHT) first_batch_loaded) = []"
proof -
  have gen: "\<not> isFiltering s \<longrightarrow>
     (let r = st div ROW_HEIGHT; nextBatchStart = nextBatchStartOf r
      in int nextBatchStart = \<lfloor>real r / real BATCH_SIZE\<rfloor> * int BATCH_SIZE + int BATCH_SIZE
       \<and> issued (handleScroll st s) =
           (if nextBatchStart < TOTAL_ROWS
               \<and> int nextBatchStart - int r \<le> int PREFETCH_THRESHOLD
               \<and> js_get (data s) nextBatchStart = None
               \<and> hasMore s \<and> \<not> loading s
            then issued s @ [(nextBatchStart, BATCH_SIZE)] else issued s)
       \<and> pending (handleScroll st s) =
           (if nextBatchStart < TOTAL_ROWS
               \<and> int nextBatchStart - int r \<le> int PREFETCH_THRESHOLD
               \<and> js_get (data s) nextBatchStart = None
               \<and> hasMore s \<and> \<not> loading s
            then pending s @ [(nextBatchStart, BATCH_SIZE)] else pending s))"
    unfolding floor_row
    by (simp add: handleScroll_def fetchBatch_def Let_def nextBatchStartOf_def)
  have e1: "issued (handleScroll (185 * ROW_HEIGHT) first_batch_loaded) = [(200, 200)]"
    using first_batch_loaded_normal
    by (simp add: handleScroll_def fetchBatch_def Let_def nextBatchStartOf_def
        first_batch_loaded_def initial_def js_get_def newRows_def
        ROW_HEIGHT_def BATCH_SIZE_def TOTAL_ROWS_def PREFETCH_THRESHOLD_def)
  have e2: "issued (handleScroll (170 * ROW_HEIGHT) first_batch_loaded) = []"
    using first_batch_loaded_normal
    by (simp add: handleScroll_def fetchBatch_def Let_def nextBatchStartOf_def
        first_batch_loaded_def initial_def js_get_def newRows_def
        ROW_HEIGHT_def BATCH_SIZE_def TOTAL_ROWS_def PREFETCH_THRESHOLD_def)
  from gen e1 e2 show ?thesis by blast
qed

theorem prefetch_iff_witness:
  "\<not> isFiltering first_batch_loaded
   \<and> pending (handleScroll 7400 first_batch_loaded) = [(200, 200)]
   \<and> pending (handleScroll 6800 first_batch_loaded) = []"
proof -
  have a: "pending (handleScroll 7400 first_batch_loaded) = [(200, 200)]"
    using prefetch_iff [of first_batch_loaded 7400] first_batch_loaded_normal
    by (simp add: Let_def nextBatchStartOf_def first_batch_loaded_def initial_def js_get_def
        newRows_def ROW_HEIGHT_def BATCH_SIZE_def TOTAL_ROWS_def PREFETCH_THRESHOLD_def)
  have b: "pending (handleScroll 6800 first_batch_loaded) = []"
    using prefetch_iff [of first_batch_loaded 6800] first_batch_loaded_normal
    by (simp add: Let_def nextBatchStartOf_def first_batch_loaded_def initial_def js_get_def
        newRows_def ROW_HEIGHT_def BATCH_SIZE_def TOTAL_ROWS_def PREFETCH_THRESHOLD_def)
  from a b first_batch_loaded_normal show ?thesis by blast
qed

subsection \<open>A batch request and its completion\<close>

text \<open>
  Claim C4. A request \<open>(a, c)\<close> made while nothing is in flight sets the in-flight flag
  and arms one timer, leaving the store and \<open>hasMore\<close> alone; made while a fetch is in
  flight it changes nothing. When its timer fires, on whatever state \<open>u\<close> the component
  is in by then, slot \<open>a + i\<close> holds the \<open>i\<close>-th returned row for every \<open>i < c\<close>, and
  that row has identifier \<open>a + i + 1\<close>; the flag is cleared; and \<open>hasMore\<close> is
  cleared exactly when \<open>a + c \<ge> TOTAL_ROWS\<close>, keeping its value otherwise.
\<close>

theorem requestBatch_contract:
  "(\<not> loading s \<longrightarrow>
      loading (fetchBatch a c s)
    \<and> pending (fetchBatch a c s) = pending s @ [(a, c)]
    \<and> issued (fetchBatch a c s) = issued s @ [(a, c)]
    \<and> data (fetchBatch a c s) = data s
    \<and> hasMore (fetchBatch a c s) = hasMore s
    \<and> (pending s = [] \<longrightarrow>
         timerFire (fetchBatch a c s) = fetchDone a c ((fetchBatch a c s)\<lparr>pending := []\<rparr>)))
   \<and> (loading t \<longrightarrow> fetchBatch a c t = t)
   \<and> (\<forall>i < c. js_get (data (fetchDone a c u)) (a + i) = Some (newRows a c ! i)
               \<and> row_id (newRows a c ! i) = a + i + 1)
   \<and> \<not> loading (fetchDone a c u)
   \<and> hasMore (fetchDone a c u) = (if a + c \<ge> TOTAL_ROWS then False else hasMore u)
   \<and> pending (fetchDone a c u) = pending u"
proof -
  have issue: "\<not> loading s \<longrightarrow>
      loading (fetchBatch a c s)
    \<and> pending (fetchBatch a c s) = pending s @ [(a, c)]
    \<and> issued (fetchBatch a c s) = issued s @ [(a, c)]
    \<and> data (fetchBatch a c s) = data s
    \<and> hasMore (fetchBatch a c s) = hasMore s
    \<and> (pending s = [] \<longrightarrow>
         timerFire (fetchBatch a c s) = fetchDone a c ((fetchBatch a c s)\<lparr>pending := []\<rparr>))"
    by (simp add: fetchBatch_def timerFire_def)
  have noop: "loading t \<longrightarrow> fetchBatch a c t = t"
    by (simp add: fetchBatch_def)
  have rows: "\<forall>i < c. js_get (data (fetchDone a c u)) (a + i) = Some (newRows a c ! i)
               \<and> row_id (newRows a c ! i) = a + i + 1"
    by (simp add: js_get_fetchDone nth_newRows mk_row_def)
  have flags: "\<not> loading (fetchDone a c u)
     \<and> hasMore (fetchDone a c u) = (if a + c \<ge> TOTAL_ROWS then False else hasMore u)
     \<and> pending (fetchDone a c u) = pending u"
    by (simp add: fetchDone_def Let_def)
  from issue noop rows flags show ?thesis by blast
qed

theorem requestBatch_contract_witness:
  "\<not> loading first_batch_loaded \<and> pending first_batch_loaded = []
   \<and> loading (fetchBatch 200 200 first_batch_loaded)
   \<and> timerFire (fetchBatch 200 200 first_batch_loaded)
        = fetchDone 200 200 ((fetchBatch 200 200 first_batch_loaded)\<lparr>pending := []\<rparr>)
   \<and> loading mounted \<and> fetchBatch 200 200 mounted = mounted
   \<and> (3::nat) < 200
   \<and> js_get (data (fetchDone 200 200 mounted)) (200 + 3) = Some (newRows 200 200 ! 3)
   \<and> row_id (newRows 200 200 ! 3) = 204"
proof -
  have h1: "\<not> loading first_batch_loaded" and h2: "pending first_batch_loaded = []"
    by (simp_all add: first_batch_loaded_def initial_def)
  have h3: "loading mounted"
    by (simp add: mounted_def fetchBatch_def initial_def)
  have h4: "(3::nat) < 200"
    by simp
  note c1 = requestBatch_contract [of first_batch_loaded 200 200 mounted mounted]
  from c1 h1 h2 have p1: "loading (fetchBatch 200 200 first_batch_loaded)
     \<and> timerFire (fetchBatch 200 200 first_batch_loaded)
        = fetchDone 200 200 ((fetchBatch 200 200 first_batch_loaded)\<lparr>pending := []\<rparr>)"
    by blast
  from c1 h3 have p2: "fetchBatch 200 200 mounted = mounted"
    by blast
  from c1 h4 have p3: "js_get (data (fetchDone 200 200 mounted)) (200 + 3) = Some (newRows 200 200 ! 3)
     \<and> row_id (newRows 200 200 ! 3) = 200 + 3 + 1"
    by blast
  from h1 h2 h3 h4 p1 p2 p3 show ?thesis by simp
qed

subsection \<open>Filter changes and the empty result\<close>

text \<open>
  Claim C8. Every change of the filter text, and so every change that switches between
  Normal and Filtering mode, sets the scroll offset to 0: the window that follows is
  computed from offset 0 and starts at index 0.
\<close>

theorem filter_change_resets_scroll:
  "scrollTop (onFilterChange v s) = 0
   \<and> startIndex (onFilterChange v s) = startIndexOf 0 (totalRows (onFilterChange v s))
   \<and> endIndex (onFilterChange v s) = endIndexOf 0 (totalRows (onFilterChange v s))
   \<and> startIndex (onFilterChange v s) = 0
   \<and> spacerTop (onFilterChange v s) = 0"
  by (simp add: onFilterChange_def startIndex_def endIndex_def startIndexOf_def spacerTop_def)

text \<open>
  Claim C9. In Filtering mode with an empty compact sequence the rendered window is
  exactly one "No results" entry, and both spacers have height 0.
\<close>

theorem empty_result_window:
  assumes "isFiltering s" and "processedData s = []"
  shows "visibleRows s = [NoResults] \<and> spacerTop s = 0 \<and> spacerBottom s = 0"
  using assms
  by (simp add: visibleRows_def spacerTop_def spacerBottom_def js_slice_def startIndex_def
      endIndex_def startIndexOf_def endIndexOf_def totalRows_def visibleCount_val)

theorem empty_result_window_witness:
  "isFiltering (initial\<lparr>data := [Some (mk_row 1)], filterText := ''zz'', scrollTop := 120\<rparr>)
   \<and> processedData (initial\<lparr>data := [Some (mk_row 1)], filterText := ''zz'', scrollTop := 120\<rparr>) = []
   \<and> visibleRows (initial\<lparr>data := [Some (mk_row 1)], filterText := ''zz'', scrollTop := 120\<rparr>)
       = [NoResults]
   \<and> spacerTop (initial\<lparr>data := [Some (mk_row 1)], filterText := ''zz'', scrollTop := 120\<rparr>) = 0
   \<and> spacerBottom (initial\<lparr>data := [Some (mk_row 1)], filterText := ''zz'', scrollTop := 120\<rparr>) = 0"
proof -
  have f: "isFiltering (initial\<lparr>data := [Some (mk_row 1)], filterText := ''zz'', scrollTop := 120\<rparr>)"
    by (simp add: isFiltering_def initial_def trim_def is_space_def)
  have e: "processedData (initial\<lparr>data := [Some (mk_row 1)], filterText := ''zz'', scrollTop := 120\<rparr>) = []"
    by (simp add: processedData_def initial_def loadedRows_def mk_row_def trim_def is_space_def
        toLowerCase_def lower_char_def num_to_string.simps digit_char_def)
  from empty_result_window [OF f e] f e show ?thesis by blast
qed

subsection \<open>Single flight\<close>

lemma single_flight_fetchBatch: "single_flight s \<Longrightarrow> single_flight (fetchBatch a c s)"
  by (auto simp: single_flight_def fetchBatch_def)

lemma single_flight_handleScroll: "single_flight s \<Longrightarrow> single_flight (handleScroll st s)"
  by (auto simp: single_flight_def handleScroll_def fetchBatch_def Let_def)

lemma single_flight_timerFire: "single_flight s \<Longrightarrow> single_flight (timerFire s)"
  by (auto simp: single_flight_def timerFire_def fetchDone_def Let_def split: list.splits)

lemma single_flight_step: "single_flight s \<Longrightarrow> single_flight (step lc ev s)"
proof (cases ev)
  case (Scroll st)
  assume "single_flight s"
  then show ?thesis using Scroll by (simp add: single_flight_handleScroll)
next
  case (FilterChange v)
  assume "single_flight s"
  then show ?thesis using FilterChange by (simp add: single_flight_def onFilterChange_def)
next
  case (HeaderClick k)
  assume "single_flight s"
  then show ?thesis using HeaderClick by (simp add: single_flight_def toggleSort_def)
next
  case Timeout
  assume "single_flight s"
  then show ?thesis using Timeout by (simp add: single_flight_timerFire)
qed

lemma single_flight_run: "single_flight s \<Longrightarrow> single_flight (run lc evs s)"
  by (induction evs arbitrary: s) (simp_all add: single_flight_step)

lemma single_flight_mounted: "single_flight mounted"
  by (simp add: single_flight_def mounted_def fetchBatch_def initial_def)

text \<open>
  Claim C5. Along every sequence of scroll events, filter changes, header clicks and
  timer firings after start-up, at most one fetch is in flight and the in-flight flag is
  set exactly while a timer is armed. Every handler, and a direct call of
  \<open>fetchBatch\<close>, keeps this from any state that has it. While the flag is set,
  neither the scroll handler nor a direct call of \<open>fetchBatch\<close> issues a request.
\<close>

theorem at_most_one_fetch_in_flight:
  "single_flight (run lc evs mounted)
   \<and> (single_flight s \<longrightarrow>
        single_flight (step lc ev s) \<and> single_flight (run lc evs s)
        \<and> single_flight (fetchBatch a c s))
   \<and> (loading t \<longrightarrow>
        pending (handleScroll st t) = pending t \<and> issued (handleScroll st t) = issued t
        \<and> pending (fetchBatch a c t) = pending t \<and> issued (fetchBatch a c t) = issued t)"
proof -
  have blocked: "loading t \<longrightarrow>
        pending (handleScroll st t) = pending t \<and> issued (handleScroll st t) = issued t
        \<and> pending (fetchBatch a c t) = pending t \<and> issued (fetchBatch a c t) = issued t"
    by (simp add: handleScroll_def fetchBatch_def Let_def)
  from blocked single_flight_run [OF single_flight_mounted, of lc evs]
    single_flight_step [of s lc ev] single_flight_run [of s lc evs]
    single_flight_fetchBatch [of s a c]
  show ?thesis by blast
qed

theorem at_most_one_fetch_in_flight_witness:
  "single_flight first_batch_loaded
   \<and> single_flight (step codeunit_compare (Scroll 7400) first_batch_loaded)
   \<and> single_flight (run codeunit_compare [Scroll 7400, Timeout, HeaderClick KId] first_batch_loaded)
   \<and> single_flight (fetchBatch 200 200 first_batch_loaded)
   \<and> loading mounted
   \<and> pending (handleScroll 7400 mounted) = pending mounted
   \<and> pending (fetchBatch 200 200 mounted) = pending mounted"
proof -
  have h1: "single_flight first_batch_loaded"
    by (simp add: single_flight_def first_batch_loaded_def initial_def)
  have h2: "loading mounted"
    by (simp add: mounted_def fetchBatch_def initial_def)
  from h1 h2
    at_most_one_fetch_in_flight [of codeunit_compare "[Scroll 7400, Timeout, HeaderClick KId]"
      first_batch_loaded "Scroll 7400" 200 200 mounted 7400]
  show ?thesis by blast
qed

subsection \<open>The start-up fetch is the only one\<close>

lemma wdf_mounted: "whole_dataset_fetch mounted"
  by (simp add: whole_dataset_fetch_def mounted_def fetchBatch_def initial_def)

lemma wdf_handleScroll: "whole_dataset_fetch s \<Longrightarrow> whole_dataset_fetch (handleScroll st s)"
  by (auto simp: whole_dataset_fetch_def handleScroll_def Let_def split: if_splits)

lemma wdf_onFilterChange: "whole_dataset_fetch s \<Longrightarrow> whole_dataset_fetch (onFilterChange v s)"
  by (auto simp: whole_dataset_fetch_def onFilterChange_def split: if_splits)

lemma js_sort_Nil: "js_sort cmp [] = []"
  by (simp add: js_sort_def)

lemma wdf_toggleSort: "whole_dataset_fetch s \<Longrightarrow> whole_dataset_fetch (toggleSort lc k s)"
  by (auto simp: whole_dataset_fetch_def toggleSort_def js_sort_Nil length_js_sort
      dest: js_sort_full split: if_splits)

lemma full_after_whole_fetch:
  "length (forEach_put 0 0 (newRows 0 n) []) = n
   \<and> None \<notin> set (forEach_put 0 0 (newRows 0 n) [])"
proof -
  have len: "length (forEach_put 0 0 (newRows 0 n) []) = n"
    by (simp add: length_forEach_put length_newRows newRows_def)
  have "\<forall>j < n. js_get (forEach_put 0 0 (newRows 0 n) []) j \<noteq> None"
    by (simp add: js_get_forEach_put length_newRows)
  with len show ?thesis
    by (simp add: no_hole_iff)
qed

lemma wdf_timerFire: "whole_dataset_fetch s \<Longrightarrow> whole_dataset_fetch (timerFire s)"
  by (auto simp: whole_dataset_fetch_def timerFire_def fetchDone_def Let_def full_after_whole_fetch
      split: if_splits)

lemma wdf_step: "whole_dataset_fetch s \<Longrightarrow> whole_dataset_fetch (step lc ev s)"
  by (cases ev) (simp_all add: wdf_handleScroll wdf_onFilterChange wdf_toggleSort wdf_timerFire)

lemma wdf_run: "whole_dataset_fetch s \<Longrightarrow> whole_dataset_fetch (run lc evs s)"
  by (induction evs arbitrary: s) (simp_all add: wdf_step)

text \<open>
  Claim C10. In every execution exactly one fetch is performed, the start-up fetch of the
  whole dataset \<open>(0, TOTAL_ROWS)\<close>; no scroll event issues another one. While that
  fetch is pending the flag is set; once it has completed the store has
  \<open>TOTAL_ROWS\<close> slots, none of them a hole, and \<open>hasMore\<close> is cleared.
\<close>

theorem exactly_one_fetch:
  "issued mounted = [(0, TOTAL_ROWS)]
   \<and> issued (run lc evs mounted) = [(0, TOTAL_ROWS)]
   \<and> issued (handleScroll st (run lc evs mounted)) = [(0, TOTAL_ROWS)]
   \<and> whole_dataset_fetch (run lc evs mounted)"
proof -
  have a: "whole_dataset_fetch (run lc evs mounted)"
    by (rule wdf_run [OF wdf_mounted])
  then have b: "whole_dataset_fetch (handleScroll st (run lc evs mounted))"
    by (rule wdf_handleScroll)
  from a b wdf_mounted show ?thesis
    by (simp add: whole_dataset_fetch_def)
qed

subsection \<open>Filtering and sorting the loaded rows\<close>

lemma starts_with_iff: "starts_with s q \<longleftrightarrow> (\<exists>t. s = q @ t)"
  by (induction s q rule: starts_with.induct) auto

lemma includes_str_iff: "includes_str s q \<longleftrightarrow> (\<exists>p t. s = p @ q @ t)"
proof (induction s)
  case Nil
  then show ?case by auto
next
  case (Cons c cs)
  have "(\<exists>p t. c # cs = p @ q @ t) \<longleftrightarrow> (\<exists>t. c # cs = q @ t) \<or> (\<exists>p t. cs = p @ q @ t)"
  proof
    assume "\<exists>p t. c # cs = p @ q @ t"
    then obtain p t where pt: "c # cs = p @ q @ t" by blast
    show "(\<exists>t. c # cs = q @ t) \<or> (\<exists>p t. cs = p @ q @ t)"
    proof (cases p)
      case Nil
      with pt show ?thesis by auto
    next
      case (Cons d ds)
      with pt have "cs = ds @ q @ t" by simp
      then show ?thesis by blast
    qed
  next
    assume "(\<exists>t. c # cs = q @ t) \<or> (\<exists>p t. cs = p @ q @ t)"
    then show "\<exists>p t. c # cs = p @ q @ t"
    proof
      assume "\<exists>t. c # cs = q @ t"
      then obtain t where "c # cs = [] @ q @ t" by auto
      then show ?thesis by blast
    next
      assume "\<exists>p t. cs = p @ q @ t"
      then obtain p t where "cs = p @ q @ t" by blast
      then have "c # cs = (c # p) @ q @ t" by simp
      then show ?thesis by blast
    qed
  qed
  then show ?case
    using Cons.IH by (simp add: starts_with_iff)
qed

lemma set_insert_cmp: "set (insert_cmp cmp x xs) = insert x (set xs)"
  using mset_insert_cmp [of cmp x xs] by (metis set_mset_mset set_mset_add_mset_insert)

lemma sorted_insert_cmp:
  assumes tot: "\<And>a b. cmp a b \<le> 0 \<or> cmp b a \<le> 0"
    and tr: "\<And>a b c. cmp a b \<le> 0 \<Longrightarrow> cmp b c \<le> 0 \<Longrightarrow> cmp a c \<le> 0"
  shows "sorted_wrt (\<lambda>a b. cmp a b \<le> 0) xs \<Longrightarrow> sorted_wrt (\<lambda>a b. cmp a b \<le> 0) (insert_cmp cmp x xs)"
proof (induction xs)
  case Nil
  then show ?case by simp
next
  case (Cons y ys)
  show ?case
  proof (cases "cmp x y \<le> 0")
    case True
    then have "\<forall>z \<in> set ys. cmp x z \<le> 0"
      using Cons.prems tr by auto
    with True Cons.prems show ?thesis by simp
  next
    case False
    then have yx: "cmp y x \<le> 0" using tot [of x y] by simp
    from Cons.prems have "sorted_wrt (\<lambda>a b. cmp a b \<le> 0) ys" by simp
    then have "sorted_wrt (\<lambda>a b. cmp a b \<le> 0) (insert_cmp cmp x ys)" by (rule Cons.IH)
    with False yx Cons.prems show ?thesis
      by (auto simp: set_insert_cmp)
  qed
qed

lemma sorted_sort_cmp:
  assumes tot: "\<And>a b. cmp a b \<le> 0 \<or> cmp b a \<le> 0"
    and tr: "\<And>a b c. cmp a b \<le> 0 \<Longrightarrow> cmp b c \<le> 0 \<Longrightarrow> cmp a c \<le> 0"
  shows "sorted_wrt (\<lambda>a b. cmp a b \<le> 0) (sort_cmp cmp xs)"
proof (induction xs)
  case Nil
  then show ?case by simp
next
  case (Cons x xs)
  then show ?case
    using sorted_insert_cmp [of cmp "sort_cmp cmp xs" x] tot tr by simp
qed

lemma val_less_asym: "val_less a b \<Longrightarrow> \<not> val_less b a"
  by (cases a; cases b) auto

lemma processed_compare_le: "processed_compare cfg a b \<le> 0 \<longleftrightarrow> ordered_by cfg a b"
  using val_less_asym [of "get_field (key cfg) a" "get_field (key cfg) b"]
  by (auto simp: processed_compare_def ordered_by_def Let_def)

lemma ordered_by_total: "ordered_by cfg a b \<or> ordered_by cfg b a"
  using val_less_asym [of "get_field (key cfg) a" "get_field (key cfg) b"]
  by (auto simp: ordered_by_def)

lemma ordered_by_trans: "ordered_by cfg a b \<Longrightarrow> ordered_by cfg b c \<Longrightarrow> ordered_by cfg a c"
  by (cases "key cfg") (auto simp: ordered_by_def split: if_splits)

lemma sorted_processed:
  "sorted_wrt (ordered_by cfg) (sort_cmp (processed_compare cfg) xs)"
proof -
  have "sorted_wrt (\<lambda>a b. processed_compare cfg a b \<le> 0) (sort_cmp (processed_compare cfg) xs)"
    by (rule sorted_sort_cmp) (auto simp: processed_compare_le ordered_by_total intro: ordered_by_trans)
  then show ?thesis
    by (simp add: processed_compare_le)
qed

lemma mset_filter_Boolean: "mset (map Some (filter_Boolean xs)) = filter_mset (\<lambda>x. x \<noteq> None) (mset xs)"
  by (induction xs rule: filter_Boolean.induct) auto

text \<open>
  Claim C2, as stated, fails: the rows are matched against the filter text as typed, not
  against the trimmed text. With the filter \<open>'' user1''\<close> the view is in Filtering mode
  and row 1, whose email contains \<open>''user1''\<close>, is not kept.
\<close>

theorem untrimmed_filter_counterexample:
  "isFiltering padded_filter_state
   \<and> processedData padded_filter_state = []
   \<and> spec_compactSequence padded_filter_state = [mk_row 1]"
  by code_simp

text \<open>
  Claim C2, amended. In Filtering mode the compact sequence consists of the loaded rows
  (holes excluded), keeping exactly those whose lower-cased name or email contains the
  lower-cased filter text as typed, untrimmed; it is ordered by the active sort key and
  direction; and the \<open>totalRows\<close> used for windowing is its length.
\<close>

theorem processedData_filtering:
  assumes "isFiltering s"
  shows "mset (map Some (loadedRows s)) = filter_mset (\<lambda>x. x \<noteq> None) (mset (data s))
   \<and> mset (processedData s) =
        filter_mset
          (\<lambda>r. (\<exists>p t. toLowerCase (name r) = p @ toLowerCase (filterText s) @ t)
             \<or> (\<exists>p t. toLowerCase (email r) = p @ toLowerCase (filterText s) @ t))
          (mset (loadedRows s))
   \<and> sorted_wrt (ordered_by (sortConfig s)) (processedData s)
   \<and> totalRows s = int (length (processedData s))"
proof -
  from assms have ne: "trim (filterText s) \<noteq> []"
    by (simp add: isFiltering_def)
  have a: "mset (map Some (loadedRows s)) = filter_mset (\<lambda>x. x \<noteq> None) (mset (data s))"
    unfolding loadedRows_def by (rule mset_filter_Boolean)
  have b: "mset (processedData s) =
        filter_mset
          (\<lambda>r. (\<exists>p t. toLowerCase (name r) = p @ toLowerCase (filterText s) @ t)
             \<or> (\<exists>p t. toLowerCase (email r) = p @ toLowerCase (filterText s) @ t))
          (mset (loadedRows s))"
    using ne by (simp add: processedData_def Let_def mset_sort_cmp includes_str_iff)
  have c: "sorted_wrt (ordered_by (sortConfig s)) (processedData s)"
    by (simp add: processedData_def Let_def sorted_processed)
  have d: "totalRows s = int (length (processedData s))"
    using assms by (simp add: totalRows_def)
  from a b c d show ?thesis by blast
qed

theorem processedData_filtering_witness:
  "isFiltering mixed_case_filter_state
   \<and> processedData mixed_case_filter_state = [mk_row 1, mk_row 10]
   \<and> sorted_wrt (ordered_by (sortConfig mixed_case_filter_state)) (processedData mixed_case_filter_state)
   \<and> totalRows mixed_case_filter_state = 2"
proof -
  have f: "isFiltering mixed_case_filter_state"
    by code_simp
  have p: "processedData mixed_case_filter_state = [mk_row 1, mk_row 10]"
    by code_simp
  from processedData_filtering [OF f] f p show ?thesis by simp
qed

subsection \<open>Header clicks\<close>

lemma forEach_put_append: "forEach_put 0 (length copy) rs copy = copy @ map Some rs"
proof (induction rs arbitrary: copy)
  case Nil
  then show ?case by simp
next
  case (Cons r rs)
  have "js_set copy (length copy) r = copy @ [Some r]"
    by (simp add: js_set_def)
  then show ?case
    using Cons.IH [of "copy @ [Some r]"] by simp
qed

lemma sort_cmp_sorted: "sorted_wrt (\<lambda>a b. cmp a b \<le> 0) xs \<Longrightarrow> sort_cmp cmp xs = xs"
proof (induction xs)
  case Nil
  then show ?case by simp
next
  case (Cons x xs)
  then have "sort_cmp cmp xs = xs" by simp
  then show ?case
    using Cons.prems by (cases xs) auto
qed

lemma data_after_startup: "data (timerFire mounted) = map Some (newRows 0 TOTAL_ROWS)"
  using forEach_put_append [of "[]" "newRows 0 TOTAL_ROWS"]
  by (simp add: timerFire_def mounted_def fetchBatch_def initial_def fetchDone_def Let_def)

lemma sortConfig_after_startup: "sortConfig (timerFire mounted) = \<lparr>key = KId, direction = Asc\<rparr>"
  by (simp add: timerFire_def mounted_def fetchBatch_def initial_def fetchDone_def Let_def)

lemma fetched_rows_ascending:
  "sorted_wrt (\<lambda>a b. toggle_compare lc KId Asc a b \<le> 0) (map Some (newRows a c))"
proof -
  have "sorted_wrt (\<lambda>i j. toggle_compare lc KId Asc (Some (mk_row (a + i + 1))) (Some (mk_row (a + j + 1))) \<le> 0) [0..<c]"
    by (rule sorted_wrt_mono_rel [OF _ sorted_wrt_upt]) (simp add: toggle_compare_def mk_row_def)
  then show ?thesis
    by (simp add: newRows_def sorted_wrt_map)
qed

lemma js_sort_sorted_full:
  "sorted_wrt (\<lambda>a b. cmp a b \<le> 0) (map Some rs) \<Longrightarrow> js_sort cmp (map Some rs) = map Some rs"
proof -
  assume srt: "sorted_wrt (\<lambda>a b. cmp a b \<le> 0) (map Some rs)"
  have "filter (\<lambda>x. x \<noteq> None) (map Some rs) = map Some rs"
    by (induction rs) auto
  then show ?thesis
    using srt by (simp add: js_sort_def Let_def sort_cmp_sorted)
qed

lemma mset_loaded: "mset (filter_Boolean xs) = image_mset the (filter_mset (\<lambda>x. x \<noteq> None) (mset xs))"
  by (induction xs rule: filter_Boolean.induct) auto

lemma filter_mset_replicate_none: "\<not> P a \<Longrightarrow> filter_mset P (replicate_mset n a) = {#}"
  by (induction n) simp_all

lemma present_js_sort:
  "filter_mset (\<lambda>x. x \<noteq> None) (mset (js_sort cmp xs)) = filter_mset (\<lambda>x. x \<noteq> None) (mset xs)"
proof -
  define Q where "Q = (\<lambda>x :: 'a option. x \<noteq> None)"
  define m where "m = length xs - length (filter Q xs)"
  have nq: "\<not> Q None"
    by (simp add: Q_def)
  have "mset (js_sort cmp xs) = filter_mset Q (mset xs) + replicate_mset m None"
    unfolding js_sort_def Let_def Q_def [symmetric] m_def [symmetric]
    by (simp add: mset_sort_cmp)
  then have "filter_mset Q (mset (js_sort cmp xs)) = filter_mset Q (mset xs)"
    using filter_mset_replicate_none [of Q None m] nq by (simp add: filter_filter_mset)
  then show ?thesis
    unfolding Q_def .
qed

lemma loadedRows_toggleSort: "mset (loadedRows (toggleSort lc k s)) = mset (loadedRows s)"
  by (simp add: loadedRows_def toggleSort_def mset_loaded present_js_sort del: not_None_eq)

lemma mset_processedData:
  "mset (processedData s) =
     (if trim (filterText s) \<noteq> [] then
        filter_mset (\<lambda>r. includes_str (toLowerCase (name r)) (toLowerCase (filterText s))
                        \<or> includes_str (toLowerCase (email r)) (toLowerCase (filterText s)))
          (mset (loadedRows s))
      else mset (loadedRows s))"
  by (simp add: processedData_def Let_def mset_sort_cmp)

lemma processedData_toggleSort: "mset (processedData (toggleSort lc k s)) = mset (processedData s)"
proof -
  have "filterText (toggleSort lc k s) = filterText s"
    by (simp add: toggleSort_def)
  then show ?thesis
    by (simp add: mset_processedData loadedRows_toggleSort)
qed

lemma present_as_loaded: "filter (\<lambda>x. x \<noteq> None) xs = map Some (filter_Boolean xs)"
  by (induction xs rule: filter_Boolean.induct) auto

lemma insert_cmp_Some:
  "insert_cmp cmp (Some x) (map Some ys) = map Some (insert_cmp (\<lambda>a b. cmp (Some a) (Some b)) x ys)"
  by (induction ys) auto

lemma sort_cmp_Some:
  "sort_cmp cmp (map Some ys) = map Some (sort_cmp (\<lambda>a b. cmp (Some a) (Some b)) ys)"
  by (induction ys) (auto simp: insert_cmp_Some)

lemma filter_Boolean_front: "filter_Boolean (map Some ys @ replicate n None) = ys"
proof -
  have "filter_Boolean (replicate n (None :: 'a option)) = []"
    by (induction n) auto
  then show ?thesis
    by (induction ys) auto
qed

lemma length_filter_Boolean: "length (filter_Boolean xs) \<le> length xs"
  by (induction xs rule: filter_Boolean.induct) auto

lemma js_sort_shape:
  "js_sort cmp xs =
     map Some (sort_cmp (\<lambda>a b. cmp (Some a) (Some b)) (filter_Boolean xs))
       @ replicate (length xs - length (filter_Boolean xs)) None"
  by (simp add: js_sort_def Let_def present_as_loaded sort_cmp_Some del: not_None_eq)

lemma loadedRows_toggleSort_eq:
  "loadedRows (toggleSort lc k s) =
     sort_cmp (\<lambda>a b. toggle_compare lc k (direction (sortConfig s)) (Some a) (Some b)) (loadedRows s)"
  by (simp add: loadedRows_def toggleSort_def js_sort_shape filter_Boolean_front)

lemma data_toggleSort:
  "data (toggleSort lc k s) =
     map Some (loadedRows (toggleSort lc k s))
       @ replicate (length (data s) - length (loadedRows s)) None"
  unfolding loadedRows_toggleSort_eq
  by (simp add: toggleSort_def js_sort_shape loadedRows_def)

lemma toggle_compare_id:
  "toggle_compare lc KId d (Some a) (Some b) \<le> 0 \<longleftrightarrow> ordered_by \<lparr>key = KId, direction = d\<rparr> a b"
  by (cases d) (auto simp: toggle_compare_def ordered_by_def)

lemma sorted_by_id_previous:
  "sorted_wrt (ordered_by \<lparr>key = KId, direction = direction (sortConfig s)\<rparr>)
     (loadedRows (toggleSort lc KId s))"
proof -
  let ?cmp = "\<lambda>a b. toggle_compare lc KId (direction (sortConfig s)) (Some a) (Some b)"
  have "sorted_wrt (\<lambda>a b. ?cmp a b \<le> 0) (sort_cmp ?cmp (loadedRows s))"
    by (rule sorted_sort_cmp) (auto simp: toggle_compare_id ordered_by_total intro: ordered_by_trans)
  then show ?thesis
    by (simp add: loadedRows_toggleSort_eq toggle_compare_id)
qed

text \<open>
  Claim C3 at a failing input. A click on a header compacts the loaded rows to the front
  of the store, leaves the holes at the tail and drops no row, but the rows are ordered
  under the direction read before the click, not under the direction the click makes
  active. After the start-up fetch has completed, a click on the \<open>id\<close> header makes
  descending the active direction while the store stays ascending: slot 0 still holds
  row 1. The same happens on a three-slot store with a hole.
\<close>

theorem toggleSort_reads_previous_direction:
  "data (toggleSort lc k s) =
     map Some (loadedRows (toggleSort lc k s))
       @ replicate (length (data s) - length (loadedRows s)) None
   \<and> mset (loadedRows (toggleSort lc k s)) = mset (loadedRows s)
   \<and> sorted_wrt (ordered_by \<lparr>key = KId, direction = direction (sortConfig s)\<rparr>)
        (loadedRows (toggleSort lc KId s))
   \<and> sortConfig (run lc [Timeout, HeaderClick KId] mounted) = \<lparr>key = KId, direction = Desc\<rparr>
   \<and> data (run lc [Timeout, HeaderClick KId] mounted) = map Some (newRows 0 TOTAL_ROWS)
   \<and> js_get (data (run lc [Timeout, HeaderClick KId] mounted)) 0 = Some (mk_row 1)
   \<and> sortConfig (toggleSort lc KId small_sparse_state) = \<lparr>key = KId, direction = Desc\<rparr>
   \<and> data (toggleSort lc KId small_sparse_state) = [Some (mk_row 1), Some (mk_row 2), None]"
proof -
  have cfg: "sortConfig (run lc [Timeout, HeaderClick KId] mounted) = \<lparr>key = KId, direction = Desc\<rparr>"
    by (simp add: toggleSort_def sortConfig_after_startup)
  have dat: "data (run lc [Timeout, HeaderClick KId] mounted) = map Some (newRows 0 TOTAL_ROWS)"
    by (simp add: toggleSort_def sortConfig_after_startup data_after_startup
        js_sort_sorted_full fetched_rows_ascending)
  have first: "js_get (data (run lc [Timeout, HeaderClick KId] mounted)) 0 = Some (mk_row 1)"
    unfolding dat by (simp add: js_get_def newRows_def TOTAL_ROWS_def)
  have small: "sortConfig (toggleSort lc KId small_sparse_state) = \<lparr>key = KId, direction = Desc\<rparr>
     \<and> data (toggleSort lc KId small_sparse_state) = [Some (mk_row 1), Some (mk_row 2), None]"
    by (simp add: toggleSort_def small_sparse_state_def initial_def js_sort_def toggle_compare_def
        mk_row_def)
  from cfg dat first small data_toggleSort [of lc k s] loadedRows_toggleSort [of lc k s]
    sorted_by_id_previous [of s lc]
  show ?thesis by blast
qed

lemma sorted_processedData: "sorted_wrt (ordered_by (sortConfig s)) (processedData s)"
  by (simp add: processedData_def Let_def sorted_processed)

lemma sortConfig_toggleSort:
  "sortConfig (toggleSort lc k s) =
     \<lparr>key = k,
      direction = (if key (sortConfig s) = k \<and> direction (sortConfig s) = Asc then Desc else Asc)\<rparr>"
  by (simp add: toggleSort_def)

text \<open>
  Claim C7, amended. A click on column \<open>k\<close> makes \<open>k\<close> the sort key; the direction
  becomes descending when \<open>k\<close> was already the key and ascending, and ascending
  otherwise. Two clicks in a row on \<open>k\<close>, starting with \<open>k\<close> active and ascending,
  give back the ascending configuration, and the processed sequence is then the same
  rows as before in ascending order by \<open>k\<close>. Starting from any other configuration, two
  clicks leave \<open>k\<close> descending, and the processed sequence is in descending order.
\<close>

theorem toggle_twice:
  "sortConfig (toggleSort lc k s) =
     \<lparr>key = k,
      direction = (if key (sortConfig s) = k \<and> direction (sortConfig s) = Asc then Desc else Asc)\<rparr>
   \<and> (sortConfig t = \<lparr>key = k, direction = Asc\<rparr> \<longrightarrow>
        sortConfig (toggleSort lc k (toggleSort lc k t)) = \<lparr>key = k, direction = Asc\<rparr>
      \<and> sorted_wrt (ordered_by \<lparr>key = k, direction = Asc\<rparr>)
           (processedData (toggleSort lc k (toggleSort lc k t)))
      \<and> mset (processedData (toggleSort lc k (toggleSort lc k t))) = mset (processedData t))
   \<and> (sortConfig u \<noteq> \<lparr>key = k, direction = Asc\<rparr> \<longrightarrow>
        sortConfig (toggleSort lc k (toggleSort lc k u)) = \<lparr>key = k, direction = Desc\<rparr>
      \<and> sorted_wrt (ordered_by \<lparr>key = k, direction = Desc\<rparr>)
           (processedData (toggleSort lc k (toggleSort lc k u)))
      \<and> mset (processedData (toggleSort lc k (toggleSort lc k u))) = mset (processedData u))"
proof -
  have one: "sortConfig (toggleSort lc k s) =
     \<lparr>key = k,
      direction = (if key (sortConfig s) = k \<and> direction (sortConfig s) = Asc then Desc else Asc)\<rparr>"
    by (rule sortConfig_toggleSort)
  have ms: "\<And>v. mset (processedData (toggleSort lc k (toggleSort lc k v))) = mset (processedData v)"
    by (simp add: processedData_toggleSort)
  have srt: "\<And>v. sorted_wrt (ordered_by (sortConfig (toggleSort lc k (toggleSort lc k v))))
           (processedData (toggleSort lc k (toggleSort lc k v)))"
    by (rule sorted_processedData)
  have asc: "sortConfig t = \<lparr>key = k, direction = Asc\<rparr> \<longrightarrow>
        sortConfig (toggleSort lc k (toggleSort lc k t)) = \<lparr>key = k, direction = Asc\<rparr>"
    by (simp add: sortConfig_toggleSort)
  have desc: "sortConfig u \<noteq> \<lparr>key = k, direction = Asc\<rparr> \<longrightarrow>
        sortConfig (toggleSort lc k (toggleSort lc k u)) = \<lparr>key = k, direction = Desc\<rparr>"
    by (cases "sortConfig u"; cases "direction (sortConfig u)") (auto simp: sortConfig_toggleSort)
  from one ms [of t] ms [of u] srt [of t] srt [of u] asc desc show ?thesis
    by metis
qed

theorem toggle_twice_witness:
  "sortConfig small_sparse_state = \<lparr>key = KId, direction = Asc\<rparr>
   \<and> sortConfig (toggleSort codeunit_compare KId (toggleSort codeunit_compare KId small_sparse_state))
       = \<lparr>key = KId, direction = Asc\<rparr>
   \<and> sorted_wrt (ordered_by \<lparr>key = KId, direction = Asc\<rparr>)
        (processedData (toggleSort codeunit_compare KId (toggleSort codeunit_compare KId small_sparse_state)))
   \<and> mset (processedData (toggleSort codeunit_compare KId (toggleSort codeunit_compare KId small_sparse_state)))
       = mset (processedData small_sparse_state)
   \<and> sortConfig descending_state \<noteq> \<lparr>key = KId, direction = Asc\<rparr>
   \<and> sortConfig (toggleSort codeunit_compare KId (toggleSort codeunit_compare KId descending_state))
       = \<lparr>key = KId, direction = Desc\<rparr>"
proof -
  have h1: "sortConfig small_sparse_state = \<lparr>key = KId, direction = Asc\<rparr>"
    by (simp add: small_sparse_state_def initial_def)
  have h2: "sortConfig descending_state \<noteq> \<lparr>key = KId, direction = Asc\<rparr>"
    by (simp add: descending_state_def initial_def)
  from h1 h2
    toggle_twice [of codeunit_compare KId small_sparse_state small_sparse_state descending_state]
  show ?thesis by blast
qed

text \<open>
  Claim C7, as stated, fails: starting with \<open>id\<close> active and descending, two clicks on
  \<open>id\<close> leave the direction descending, and the processed sequence is row 2 before
  row 1, not the ascending sequence of the same rows.
\<close>

theorem toggle_twice_counterexample:
  "sortConfig (toggleSort codeunit_compare KId (toggleSort codeunit_compare KId descending_state))
     = \<lparr>key = KId, direction = Desc\<rparr>
   \<and> processedData (toggleSort codeunit_compare KId (toggleSort codeunit_compare KId descending_state))
     = [mk_row 2, mk_row 1]
   \<and> \<not> sorted_wrt (ordered_by \<lparr>key = KId, direction = Asc\<rparr>)
        (processedData (toggleSort codeunit_compare KId (toggleSort codeunit_compare KId descending_state)))
   \<and> processedData (descending_state\<lparr>sortConfig := \<lparr>key = KId, direction = Asc\<rparr>\<rparr>)
     = [mk_row 1, mk_row 2]"
  by code_simp

end
